theory Spec2Isabelle
  imports Complex_Main "HOL-Library.AList" "HOL-Library.Log_Nat"
begin

section \<open>The progress tracker of \<^verbatim>\<open>app.py\<close>\<close>

text \<open>
  The application keeps, per session, one dictionary \<^verbatim>\<open>session["progress"]\<close> from
  category names to a record of the completed level, the answers given and the badges
  earned. Two handlers work on it: \<^verbatim>\<open>index\<close> (the summary page) and \<^verbatim>\<open>survey\<close>
  (one questionnaire level, shown on GET and stored on POST).

  Python values are modelled as follows. A \<^verbatim>\<open>str\<close> is a \<^typ>\<open>string\<close>: an ASCII
  character is itself, and the two non-ASCII characters of the question texts are
  written as their UTF-8 bytes. An \<^verbatim>\<open>int\<close> is an \<^typ>\<open>int\<close>. A dictionary whose
  iteration order the code uses is an association list with distinct keys, read with
  \<^const>\<open>map_of\<close> and written with \<^const>\<open>AList.update\<close>, which keeps the position of
  an existing key as a Python \<^verbatim>\<open>dict\<close> does. An exception is a value of type
  \<open>error\<close>. The session is passed in and returned.
\<close>

subsection \<open>Data\<close>

datatype error = KeyError | ZeroDivisionError | OverflowError

text \<open>One entry of a category's list in \<^verbatim>\<open>SURVEY_QUESTIONS\<close>:
  \<^verbatim>\<open>{"level": ..., "questions": [...]}\<close>.\<close>

record level_data =
  ld_level :: int
  ld_questions :: "string list"

text \<open>\<^verbatim>\<open>{"question": q, "answer": answer}\<close>\<close>

record answer_rec =
  question :: string
  answer :: string

text \<open>\<^verbatim>\<open>{"level": current_level, "answers": answers}\<close>\<close>

record response =
  r_level :: int
  answers :: "answer_rec list"

text \<open>\<^verbatim>\<open>{"level": 0, "responses": [], "badges": []}\<close>\<close>

record user_cat_data =
  level :: int
  responses :: "response list"
  badges :: "string list"

type_synonym progress = "(string \<times> user_cat_data) list"

text \<open>The session holds at most the key \<^verbatim>\<open>"progress"\<close>; \<open>None\<close> is a session without it.\<close>

type_synonym session = "progress option"

definition SURVEY_QUESTIONS :: "(string \<times> level_data list) list" where
  "SURVEY_QUESTIONS = [
  (''spiritual'', [
    \<lparr>ld_level = 1, ld_questions = [
        ''Did you set aside time for prayer or meditation today?'',
        ''Did you read a passage from a religious or philosophical text?'']\<rparr>,
    \<lparr>ld_level = 2, ld_questions = [
        ''Have you engaged in a community service or outreach activity this week?'',
        ''Have you participated in a group worship, study or reflection session recently?'']\<rparr>,
    \<lparr>ld_level = 3, ld_questions = [
        ''Do you feel your spiritual practice is deepening over time?'',
        ''Are you mentoring or supporting others in their spiritual journey?'']\<rparr>]),
  (''physical'', [
    \<lparr>ld_level = 1, ld_questions = [
        ''Did you complete at least 30 minutes of physical activity today?'',
        ''Did you drink at least 8 cups of water today?'']\<rparr>,
    \<lparr>ld_level = 2, ld_questions = [
        ''Did you eat a balanced meal with fruits and vegetables today?'',
        ''Have you consistently slept 7'' @ [CHR 0xE2, CHR 0x80, CHR 0x93] @ ''8 hours per night this week?'']\<rparr>,
    \<lparr>ld_level = 3, ld_questions = [
        ''Are you following a regular exercise routine that challenges you?'',
        ''Have you reached or maintained a healthy weight range?'']\<rparr>]),
  (''mental'', [
    \<lparr>ld_level = 1, ld_questions = [
        ''Did you practice a stress'' @ [CHR 0xE2, CHR 0x80, CHR 0x91] @ ''relief technique like mindfulness or deep breathing today?'',
        ''Did you take a break from screens and social media for at least 30 minutes?'']\<rparr>,
    \<lparr>ld_level = 2, ld_questions = [
        ''Have you connected with a friend, family member or counselor to talk about how you're feeling?'',
        ''Did you spend time on a hobby or creative activity that you enjoy?'']\<rparr>,
    \<lparr>ld_level = 3, ld_questions = [
        ''Are you regularly journaling or reflecting on your emotions?'',
        ''Do you feel you can manage stress and challenges in a healthy way?'']\<rparr>])]"

subsection \<open>\<^verbatim>\<open>get_user_progress\<close>\<close>

text \<open>
  \<^verbatim>\<open>if "progress" not in session: session["progress"] = {cat: {...} for cat in SURVEY_QUESTIONS.keys()}\<close>
  \<^verbatim>\<open>return session["progress"]\<close>
  The result is the dictionary together with the session as the call leaves it.
\<close>

definition get_user_progress :: "session \<Rightarrow> progress \<times> session" where
  "get_user_progress session =
     (case session of
        None \<Rightarrow>
          (let new = map (\<lambda>cat. (cat, \<lparr>level = 0, responses = [], badges = []\<rparr>))
                         (map fst SURVEY_QUESTIONS)
           in (new, Some new))
      | Some progress \<Rightarrow> (progress, Some progress))"

subsection \<open>Strings\<close>

text \<open>
  \<^verbatim>\<open>str.lower\<close> and \<^verbatim>\<open>str.capitalize\<close>, as they act on ASCII text: \<^verbatim>\<open>lower\<close> turns
  the letters A to Z into a to z, \<^verbatim>\<open>capitalize\<close> turns a first letter a to z into A to Z
  and lower-cases the rest; every other character is kept. On characters outside ASCII
  Python applies the Unicode case tables instead of keeping them; the category names of
  the configuration are ASCII, and the handlers use the two functions on category names
  only.
\<close>

definition ascii_uppercase :: string where
  "ascii_uppercase = ''ABCDEFGHIJKLMNOPQRSTUVWXYZ''"

definition ascii_lowercase :: string where
  "ascii_lowercase = ''abcdefghijklmnopqrstuvwxyz''"

definition lower_char :: "char \<Rightarrow> char" where
  "lower_char ch =
     (case map_of (zip ascii_uppercase ascii_lowercase) ch of None \<Rightarrow> ch | Some l \<Rightarrow> l)"

definition upper_char :: "char \<Rightarrow> char" where
  "upper_char ch =
     (case map_of (zip ascii_lowercase ascii_uppercase) ch of None \<Rightarrow> ch | Some u \<Rightarrow> u)"

definition lower :: "string \<Rightarrow> string" where
  "lower s = map lower_char s"

definition capitalize :: "string \<Rightarrow> string" where
  "capitalize s = (case s of [] \<Rightarrow> [] | ch # rest \<Rightarrow> upper_char ch # map lower_char rest)"

text \<open>The decimal numeral of a list index, as \<^verbatim>\<open>f"{idx}"\<close> prints it.\<close>

fun decimal :: "nat \<Rightarrow> string" where
  "decimal n =
     (if n < 10 then [''0123456789'' ! n]
      else decimal (n div 10) @ [''0123456789'' ! (n mod 10)])"

declare decimal.simps [simp del]

subsection \<open>Floating point\<close>

text \<open>
  \<^verbatim>\<open>completed_levels / total_levels\<close> and \<^verbatim>\<open>... * 100\<close> are IEEE 754 binary64
  operations. A finite binary64 value is modelled by the rational number it denotes,
  and each operation returns the exact result rounded to the nearest representable
  value, ties to the even significand (53 bits, least exponent \<open>-1022\<close> with gradual
  underflow below it). \<open>None\<close> stands for a result beyond the finite range.
\<close>

definition pow2 :: "int \<Rightarrow> rat" where
  "pow2 e = (if 0 \<le> e then of_int (2 ^ nat e) else 1 / of_int (2 ^ nat (- e)))"

text \<open>For \<open>x > 0\<close>, the exponent \<open>t\<close> with \<open>pow2 t \<le> x < pow2 (t + 1)\<close>.\<close>

definition ilog2 :: "rat \<Rightarrow> int" where
  "ilog2 x =
     (let (a, b) = quotient_of x; t = bitlen a - bitlen b
      in if pow2 t \<le> x then t else t - 1)"

definition round_half_even :: "rat \<Rightarrow> int" where
  "round_half_even y =
     (let f = \<lfloor>y\<rfloor>; r = y - of_int f
      in if r < 1 / 2 then f else if 1 / 2 < r then f + 1
         else if even f then f else f + 1)"

definition fl :: "rat \<Rightarrow> rat option" where
  "fl x =
     (if x = 0 then Some 0
      else let e = max (ilog2 \<bar>x\<bar>) (- 1022);
               ulp = pow2 (e - 52);
               y = of_int (round_half_even (x / ulp)) * ulp
           in if \<bar>y\<bar> < pow2 1024 then Some y else None)"

text \<open>\<^verbatim>\<open>a / b\<close> on two \<^verbatim>\<open>int\<close>s: the correctly rounded quotient, or an exception.\<close>

definition truediv :: "int \<Rightarrow> int \<Rightarrow> error + rat" where
  "truediv a b =
     (if b = 0 then Inl ZeroDivisionError
      else case fl (of_int a / of_int b) of
             None \<Rightarrow> Inl OverflowError
           | Some q \<Rightarrow> Inr q)"

text \<open>\<^verbatim>\<open>x * y\<close> on two finite floats; \<open>None\<close> is an infinity.\<close>

definition float_mul :: "rat \<Rightarrow> rat \<Rightarrow> rat option" where
  "float_mul x y = fl (x * y)"

text \<open>\<^verbatim>\<open>int(x)\<close> truncates towards zero and raises on an infinity.\<close>

definition int_of_float :: "rat option \<Rightarrow> error + int" where
  "int_of_float x =
     (case x of
        None \<Rightarrow> Inl OverflowError
      | Some y \<Rightarrow> Inr (if 0 \<le> y then \<lfloor>y\<rfloor> else - \<lfloor>- y\<rfloor>))"

subsection \<open>\<^verbatim>\<open>index\<close>\<close>

text \<open>\<^verbatim>\<open>int((completed_levels / total_levels) * 100)\<close>\<close>

definition compute_percent_complete :: "int \<Rightarrow> int \<Rightarrow> error + int" where
  "compute_percent_complete completed_levels total_levels =
     (case truediv completed_levels total_levels of
        Inl e \<Rightarrow> Inl e
      | Inr q \<Rightarrow> int_of_float (float_mul q 100))"

text \<open>One element of \<^verbatim>\<open>categories_info\<close>.\<close>

record category_info =
  name :: string
  key :: string
  percent_complete :: int
  ci_badges :: "string list"
  next_level :: "int option"

text \<open>The loop over \<^verbatim>\<open>progress.items()\<close>; an exception ends it.\<close>

fun categories_info :: "progress \<Rightarrow> error + category_info list" where
  "categories_info [] = Inr []"
| "categories_info ((category, data) # rest) =
     (case map_of SURVEY_QUESTIONS category of
        None \<Rightarrow> Inl KeyError
      | Some levels \<Rightarrow>
          (let total_levels = int (length levels);
               completed_levels = level data
           in case compute_percent_complete completed_levels total_levels of
                Inl e \<Rightarrow> Inl e
              | Inr pc \<Rightarrow>
                  (case categories_info rest of
                     Inl e \<Rightarrow> Inl e
                   | Inr infos \<Rightarrow>
                       Inr (\<lparr>name = capitalize category, key = category,
                             percent_complete = pc, ci_badges = badges data,
                             next_level = (if completed_levels < total_levels
                                           then Some (completed_levels + 1) else None)\<rparr>
                            # infos))))"

datatype page =
    Redirect_index
  | Render_index "category_info list"
  | Render_survey string int "string list"

definition index :: "session \<Rightarrow> (error + page) \<times> session" where
  "index session =
     (let (progress, session1) = get_user_progress session
      in (case categories_info progress of
            Inl e \<Rightarrow> Inl e
          | Inr infos \<Rightarrow> Inr (Render_index infos),
          session1))"

subsection \<open>\<^verbatim>\<open>survey\<close>\<close>

datatype http_method = GET | POST

text \<open>\<^verbatim>\<open>request.form\<close>: the submitted fields in order; \<^verbatim>\<open>get\<close> returns the first value
  of a field, or the default.\<close>

type_synonym form = "(string \<times> string) list"

definition form_get :: "form \<Rightarrow> string \<Rightarrow> string \<Rightarrow> string" where
  "form_get form field dflt = (case map_of form field of None \<Rightarrow> dflt | Some v \<Rightarrow> v)"

text \<open>The loop over \<^verbatim>\<open>enumerate(level_data["questions"])\<close>.\<close>

definition collect_answers :: "form \<Rightarrow> string list \<Rightarrow> answer_rec list" where
  "collect_answers form qs =
     map (\<lambda>(idx, q). \<lparr>question = q, answer = form_get form (''q'' @ decimal idx) ''''\<rparr>)
       (enumerate 0 qs)"

text \<open>
  The handler. A raised exception is \<open>Inl\<close>; otherwise the page and the session as the
  request leaves it. \<^verbatim>\<open>user_cat_data\<close> is the very object stored under
  \<^verbatim>\<open>progress[category]\<close>, so the appends and the assignment to it change \<^verbatim>\<open>progress\<close>:
  the model writes the changed record back under its key.
\<close>

definition survey ::
  "http_method \<Rightarrow> string \<Rightarrow> form \<Rightarrow> session \<Rightarrow> error + (page \<times> session)" where
  "survey method category0 form session =
     (let category = lower category0
      in case map_of SURVEY_QUESTIONS category of
           None \<Rightarrow> Inr (Redirect_index, session)
         | Some levels \<Rightarrow>
             (let (progress, session1) = get_user_progress session
              in case map_of progress category of
                   None \<Rightarrow> Inl KeyError
                 | Some user_cat_data \<Rightarrow>
                     (let current_level = level user_cat_data + 1;
                          total_levels = int (length levels)
                      in if current_level > total_levels then Inr (Redirect_index, session1)
                         else case find (\<lambda>lvl. ld_level lvl = current_level) levels of
                                None \<Rightarrow> Inr (Redirect_index, session1)
                              | Some level_data \<Rightarrow>
                                  if method = POST then
                                    (let answers = collect_answers form (ld_questions level_data);
                                         d1 = user_cat_data
                                                \<lparr>responses := responses user_cat_data
                                                    @ [\<lparr>r_level = current_level, answers = answers\<rparr>]\<rparr>;
                                         d2 = d1\<lparr>level := current_level\<rparr>;
                                         d3 = (if current_level = total_levels
                                               then d2\<lparr>badges := badges d2
                                                      @ [capitalize category @ '' Champion'']\<rparr>
                                               else d2);
                                         progress' = AList.update category d3 progress
                                     in Inr (Redirect_index, Some progress'))
                                  else Inr (Render_survey category current_level
                                              (ld_questions level_data), session1))))"

subsection \<open>Sequences of requests\<close>

text \<open>
  The operations of the progress controller as requests change the session. A request
  that ends in an exception leaves the session as it found it.
\<close>

datatype operation =
    GetOrInitProgress
  | GetSurveyPage string
  | SubmitSurvey string form

definition session_after :: "error + (page \<times> session) \<Rightarrow> session \<Rightarrow> session" where
  "session_after r session = (case r of Inl e \<Rightarrow> session | Inr (pg, session') \<Rightarrow> session')"

fun apply_op :: "operation \<Rightarrow> session \<Rightarrow> session" where
  "apply_op GetOrInitProgress session = snd (get_user_progress session)"
| "apply_op (GetSurveyPage category) session =
     session_after (survey GET category [] session) session"
| "apply_op (SubmitSurvey category form) session =
     session_after (survey POST category form session) session"

definition run :: "operation list \<Rightarrow> session \<Rightarrow> session" where
  "run ops session = fold apply_op ops session"

text \<open>The number of levels of a category, \<^verbatim>\<open>len(SURVEY_QUESTIONS[category])\<close>.\<close>

definition total_levels :: "string \<Rightarrow> int" where
  "total_levels category =
     (case map_of SURVEY_QUESTIONS category of None \<Rightarrow> 0 | Some levels \<Rightarrow> int (length levels))"

subsection \<open>Auxiliary notions\<close>

text \<open>
  The record that a stored submission leaves under the category, and the invariant of
  the session that the proofs below maintain. They serve the statements and proofs;
  the handlers do not use them.
\<close>

definition submitted :: "string \<Rightarrow> level_data list \<Rightarrow> level_data \<Rightarrow> form \<Rightarrow> user_cat_data \<Rightarrow> user_cat_data" where
  "submitted category levels ld form d =
     \<lparr>level = level d + 1,
      responses = responses d @ [\<lparr>r_level = level d + 1, answers = collect_answers form (ld_questions ld)\<rparr>],
      badges = (if level d + 1 = int (length levels)
                then badges d @ [capitalize category @ '' Champion''] else badges d)\<rparr>"

definition cat_ok :: "string \<Rightarrow> user_cat_data \<Rightarrow> bool" where
  "cat_ok c d =
     (0 \<le> level d \<and> level d \<le> total_levels c \<and> int (length (responses d)) = level d
      \<and> length (badges d) = (if level d = total_levels c then 1 else 0))"

definition progress_ok :: "progress \<Rightarrow> bool" where
  "progress_ok p = (map fst p = map fst SURVEY_QUESTIONS \<and> (\<forall>(c, d) \<in> set p. cat_ok c d))"

definition session_ok :: "session \<Rightarrow> bool" where
  "session_ok s = (case s of None \<Rightarrow> True | Some p \<Rightarrow> progress_ok p)"

subsection \<open>Facts about the configuration\<close>

lemma SURVEY_QUESTIONS_keys:
  "map fst SURVEY_QUESTIONS = [''spiritual'', ''physical'', ''mental'']"
  by (simp add: SURVEY_QUESTIONS_def)

lemma SURVEY_QUESTIONS_lookup:
  assumes "map_of SURVEY_QUESTIONS c = Some lvls"
  shows "c \<in> {''spiritual'', ''physical'', ''mental''} \<and> map ld_level lvls = [1, 2, 3]"
  using assms by (auto simp: SURVEY_QUESTIONS_def split: if_splits)

lemma SURVEY_QUESTIONS_known:
  assumes "c \<in> set (map fst SURVEY_QUESTIONS)"
  shows "\<exists>lvls. map_of SURVEY_QUESTIONS c = Some lvls"
  using assms by (metis map_of_eq_None_iff not_Some_eq set_map)

lemma lookup_physical: "map_of SURVEY_QUESTIONS ''physical'' = Some (snd (SURVEY_QUESTIONS ! 1))"
  by (simp add: SURVEY_QUESTIONS_def)

lemma length_levels:
  assumes "map_of SURVEY_QUESTIONS c = Some lvls"
  shows "length lvls = 3"
proof -
  have "length (map ld_level lvls) = 3"
    using SURVEY_QUESTIONS_lookup [OF assms] by simp
  then show ?thesis by simp
qed

lemma total_levels_known:
  assumes "map_of SURVEY_QUESTIONS c = Some lvls"
  shows "total_levels c = 3"
  using length_levels [OF assms] assms by (simp add: total_levels_def)

lemma find_levels:
  assumes "map ld_level lvls = [1, 2, 3]"
  shows "(find (\<lambda>lvl. ld_level lvl = n) lvls = None) = (n \<notin> {1, 2, 3})"
proof -
  from assms obtain a b c where "lvls = [a, b, c]" "ld_level a = 1" "ld_level b = 2" "ld_level c = 3"
    by (auto simp: map_eq_Cons_conv)
  then show ?thesis by auto
qed

lemma find_next_level:
  assumes "map_of SURVEY_QUESTIONS c = Some lvls" and "0 \<le> n" and "n < int (length lvls)"
  shows "\<exists>ld. find (\<lambda>lvl. ld_level lvl = n + 1) lvls = Some ld"
proof -
  have "n + 1 \<in> {1, 2, 3}"
    using assms(2,3) length_levels [OF assms(1)] by auto
  then have "find (\<lambda>lvl. ld_level lvl = n + 1) lvls \<noteq> None"
    using find_levels [of lvls "n + 1"] SURVEY_QUESTIONS_lookup [OF assms(1)] by simp
  then show ?thesis by auto
qed

subsection \<open>Facts about the string functions\<close>



lemma lower_Physical: "lower ''Physical'' = ''physical''"
  by (simp add: lower_def lower_char_def ascii_uppercase_def ascii_lowercase_def)

lemma lower_physical: "lower ''physical'' = ''physical''"
  by (simp add: lower_def lower_char_def ascii_uppercase_def ascii_lowercase_def)

lemma capitalize_known:
  assumes "map_of SURVEY_QUESTIONS c = Some lvls"
  shows "capitalize c \<in> {''Spiritual'', ''Physical'', ''Mental''}"
proof -
  have "c \<in> {''spiritual'', ''physical'', ''mental''}"
    using SURVEY_QUESTIONS_lookup [OF assms] by simp
  then show ?thesis
    by (auto simp: capitalize_def upper_char_def lower_char_def ascii_uppercase_def ascii_lowercase_def)
qed

lemma decimal_0: "decimal 0 = ''0''"
  by (simp add: decimal.simps)

lemma decimal_1: "decimal (Suc 0) = ''1''"
  by (simp add: decimal.simps)

lemma decimal_examples: "decimal 7 = ''7'' \<and> decimal 10 = ''10'' \<and> decimal 307 = ''307''"
  by (simp add: decimal.simps)

subsection \<open>Initialisation\<close>

lemma view_fresh:
  "map_of (fst (get_user_progress None)) c =
     (if c \<in> set (map fst SURVEY_QUESTIONS) then Some \<lparr>level = 0, responses = [], badges = []\<rparr> else None)"
  by (simp add: get_user_progress_def SURVEY_QUESTIONS_keys Let_def)

lemma view_Some: "get_user_progress (Some p) = (p, Some p)"
  by (simp add: get_user_progress_def)

lemma view_idem: "fst (get_user_progress (snd (get_user_progress s))) = fst (get_user_progress s)"
  by (cases s) (simp_all add: get_user_progress_def Let_def)

lemma snd_view_Some: "s \<noteq> None \<Longrightarrow> snd (get_user_progress s) = s"
  by (cases s) (simp_all add: get_user_progress_def)

lemma fresh_entry_level:
  assumes "map_of (fst (get_user_progress None)) c = Some d"
  shows "d = \<lparr>level = 0, responses = [], badges = []\<rparr>"
  using assms by (simp add: view_fresh split: if_splits)

text \<open>
  Claim C5. On a session without a progress record, \<^verbatim>\<open>get_user_progress\<close> stores and
  returns a record that maps each of the configured categories, and nothing else, to
  level 0 with no responses and no badges. Calling it again on the session it left
  returns the same record and leaves that session as it is.
\<close>

theorem get_user_progress_fresh_idempotent:
  "get_user_progress None =
     ([(''spiritual'', \<lparr>level = 0, responses = [], badges = []\<rparr>),
       (''physical'', \<lparr>level = 0, responses = [], badges = []\<rparr>),
       (''mental'', \<lparr>level = 0, responses = [], badges = []\<rparr>)],
      Some [(''spiritual'', \<lparr>level = 0, responses = [], badges = []\<rparr>),
            (''physical'', \<lparr>level = 0, responses = [], badges = []\<rparr>),
            (''mental'', \<lparr>level = 0, responses = [], badges = []\<rparr>)])
   \<and> map fst (fst (get_user_progress None)) = map fst SURVEY_QUESTIONS
   \<and> get_user_progress (snd (get_user_progress s)) = get_user_progress s"
  by (cases s) (simp_all add: get_user_progress_def SURVEY_QUESTIONS_keys Let_def)

subsection \<open>The handler, case by case\<close>

text \<open>
  The three ways through \<^verbatim>\<open>survey\<close>: the category is not configured; it is configured and
  the session has its record; it is configured and the record is missing.
\<close>

lemma survey_unknown:
  assumes "map_of SURVEY_QUESTIONS (lower c) = None"
  shows "survey m c f s = Inr (Redirect_index, s)"
  using assms by (simp add: survey_def)

lemma survey_known:
  assumes "map_of SURVEY_QUESTIONS (lower c) = Some lvls"
      and "map_of (fst (get_user_progress s)) (lower c) = Some d"
  shows "survey m c f s =
     (if level d + 1 > int (length lvls) then Inr (Redirect_index, snd (get_user_progress s))
      else case find (\<lambda>lvl. ld_level lvl = level d + 1) lvls of
             None \<Rightarrow> Inr (Redirect_index, snd (get_user_progress s))
           | Some ld \<Rightarrow>
               if m = POST
               then Inr (Redirect_index,
                         Some (AList.update (lower c) (submitted (lower c) lvls ld f d)
                                 (fst (get_user_progress s))))
               else Inr (Render_survey (lower c) (level d + 1) (ld_questions ld),
                         snd (get_user_progress s)))"
  using assms
  by (cases d) (simp add: survey_def submitted_def Let_def split_beta split: option.splits)

lemma survey_missing_entry:
  assumes "map_of SURVEY_QUESTIONS (lower c) = Some lvls"
      and "map_of (fst (get_user_progress s)) (lower c) = None"
  shows "survey m c f s = Inl KeyError"
  using assms by (simp add: survey_def Let_def split_beta)

lemma collect_answers_nth:
  "collect_answers form qs =
     map (\<lambda>i. \<lparr>question = qs ! i,
               answer = (case map_of form (''q'' @ decimal i) of None \<Rightarrow> '''' | Some v \<Rightarrow> v)\<rparr>)
       [0..<length qs]"
  by (rule nth_equalityI) (simp_all add: collect_answers_def form_get_def nth_enumerate_eq)

lemma apply_op_submit_entry:
  assumes "map_of SURVEY_QUESTIONS (lower c) = Some lvls"
      and "map_of (fst (get_user_progress s)) (lower c) = Some d"
  shows "map_of (fst (get_user_progress (apply_op (SubmitSurvey c form) s))) (lower c) =
           Some (if level d + 1 > int (length lvls) then d
                 else case find (\<lambda>lvl. ld_level lvl = level d + 1) lvls of
                        None \<Rightarrow> d | Some ld \<Rightarrow> submitted (lower c) lvls ld form d)"
  using assms(2)
  by (simp add: survey_known [OF assms] session_after_def view_idem view_Some update_conv'
           split: option.splits)

lemma survey_redirect_unchanged:
  assumes "map_of SURVEY_QUESTIONS (lower c) = None
           \<or> (\<exists>d. map_of (fst (get_user_progress s)) (lower c) = Some d
                   \<and> level d = total_levels (lower c))
           \<or> (\<exists>lvls d. map_of SURVEY_QUESTIONS (lower c) = Some lvls
                   \<and> map_of (fst (get_user_progress s)) (lower c) = Some d
                   \<and> find (\<lambda>lvl. ld_level lvl = level d + 1) lvls = None)"
  shows "survey m c form s = Inr (Redirect_index, s)"
proof (cases "map_of SURVEY_QUESTIONS (lower c)")
  case None
  then show ?thesis by (rule survey_unknown)
next
  case (Some lvls)
  from assms Some obtain d where d: "map_of (fst (get_user_progress s)) (lower c) = Some d"
    and fail: "level d = total_levels (lower c)
               \<or> find (\<lambda>lvl. ld_level lvl = level d + 1) lvls = None"
    by auto
  have lv: "level d + 1 \<notin> {1, 2, 3}"
    using fail total_levels_known [OF Some] find_levels [of lvls "level d + 1"]
      SURVEY_QUESTIONS_lookup [OF Some] by auto
  have "s \<noteq> None"
  proof
    assume "s = None"
    then have "level d = 0" using d fresh_entry_level by fastforce
    then show False using lv by simp
  qed
  then have "snd (get_user_progress s) = s" by (rule snd_view_Some)
  moreover have "find (\<lambda>lvl. ld_level lvl = level d + 1) lvls = None"
    using lv find_levels [of lvls "level d + 1"] SURVEY_QUESTIONS_lookup [OF Some] by simp
  ultimately show ?thesis
    by (simp add: survey_known [OF Some d])
qed

subsection \<open>Submitting a level\<close>

text \<open>
  Claim C1. Let the category of the request, lower-cased, be configured, and let its
  record in the session (a fresh record, if the session has none yet) hold a level
  \<open>n\<close> with \<open>0 \<le> n\<close> below the number of levels. Then a POST answers with the
  redirect whatever the form contains, and the record it stores has level \<open>n + 1\<close>
  and the former responses followed by exactly one new response of level \<open>n + 1\<close>.
  The level is computed from the session alone: no field of the form enters it.
\<close>

theorem survey_post_advances:
  assumes "map_of SURVEY_QUESTIONS (lower c) = Some lvls"
      and "map_of (fst (get_user_progress s)) (lower c) = Some d"
      and "0 \<le> level d" and "level d < int (length lvls)"
  shows "\<exists>p' d' a. survey POST c form s = Inr (Redirect_index, Some p')
           \<and> map_of p' (lower c) = Some d'
           \<and> level d' = level d + 1
           \<and> responses d' = responses d @ [\<lparr>r_level = level d + 1, answers = a\<rparr>]"
proof -
  obtain ld where ld: "find (\<lambda>lvl. ld_level lvl = level d + 1) lvls = Some ld"
    using find_next_level [OF assms(1,3,4)] by blast
  let ?d' = "submitted (lower c) lvls ld form d"
  let ?p' = "AList.update (lower c) ?d' (fst (get_user_progress s))"
  have "survey POST c form s = Inr (Redirect_index, Some ?p')"
    using assms(4) ld by (simp add: survey_known [OF assms(1,2)])
  moreover have "map_of ?p' (lower c) = Some ?d'"
    by (simp add: update_conv')
  moreover have "level ?d' = level d + 1"
    by (simp add: submitted_def)
  moreover have "responses ?d' = responses d
      @ [\<lparr>r_level = level d + 1, answers = collect_answers form (ld_questions ld)\<rparr>]"
    by (simp add: submitted_def)
  ultimately show ?thesis by blast
qed

theorem survey_post_advances_witness:
  "map_of SURVEY_QUESTIONS (lower ''Physical'') = Some (snd (SURVEY_QUESTIONS ! 1))
   \<and> map_of (fst (get_user_progress None)) (lower ''Physical'')
       = Some \<lparr>level = 0, responses = [], badges = []\<rparr>
   \<and> (\<exists>p' d' a. survey POST ''Physical'' [(''q0'', ''yes''), (''level'', ''3'')] None
                   = Inr (Redirect_index, Some p')
         \<and> map_of p' ''physical'' = Some d' \<and> level d' = 1
         \<and> responses d' = [\<lparr>r_level = 1, answers = a\<rparr>])"
proof -
  let ?d = "\<lparr>level = 0, responses = [], badges = []\<rparr>"
  have 1: "map_of SURVEY_QUESTIONS (lower ''Physical'') = Some (snd (SURVEY_QUESTIONS ! 1))"
    by (simp add: lower_Physical lookup_physical)
  have 2: "map_of (fst (get_user_progress None)) (lower ''Physical'') = Some ?d"
    by (simp add: lower_Physical view_fresh SURVEY_QUESTIONS_keys)
  have 3: "0 \<le> level ?d" by simp
  have 4: "level ?d < int (length (snd (SURVEY_QUESTIONS ! 1)))"
    by (simp add: SURVEY_QUESTIONS_def)
  show ?thesis
    using 1 2 survey_post_advances [OF 1 2 3 4, of "[(''q0'', ''yes''), (''level'', ''3'')]"]
    by (simp add: lower_Physical)
qed

text \<open>
  Claim C2. A submission whose resolved level \<open>n + 1\<close> is the number of levels of the
  category leaves the category's badges extended by exactly the one badge made of the
  capitalised category name and \<^verbatim>\<open>" Champion"\<close>; any other submission leaves the badges
  as they were. The capitalised name is one of Spiritual, Physical and Mental.
\<close>

theorem survey_post_badges:
  assumes "map_of SURVEY_QUESTIONS (lower c) = Some lvls"
      and "map_of (fst (get_user_progress s)) (lower c) = Some d"
  shows "\<exists>d'. map_of (fst (get_user_progress (apply_op (SubmitSurvey c form) s))) (lower c) = Some d'
           \<and> badges d' = (if level d + 1 = int (length lvls)
                          then badges d @ [capitalize (lower c) @ '' Champion'']
                          else badges d)
           \<and> capitalize (lower c) \<in> {''Spiritual'', ''Physical'', ''Mental''}"
proof (cases "level d + 1 = int (length lvls)")
  case True
  then have "0 \<le> level d" "level d < int (length lvls)"
    using length_levels [OF assms(1)] by simp_all
  then obtain ld where ld: "find (\<lambda>lvl. ld_level lvl = level d + 1) lvls = Some ld"
    using find_next_level [OF assms(1)] by blast
  show ?thesis
    using True ld capitalize_known [OF assms(1)]
    by (simp add: apply_op_submit_entry [OF assms] submitted_def del: apply_op.simps)
next
  case False
  then show ?thesis
    using capitalize_known [OF assms(1)]
    by (simp add: apply_op_submit_entry [OF assms] submitted_def del: apply_op.simps
             split: option.splits)
qed

theorem survey_post_badges_witness:
  "\<exists>d'. map_of (fst (get_user_progress (apply_op (SubmitSurvey ''physical'' [])
               (Some [(''physical'', \<lparr>level = 2, responses = [], badges = []\<rparr>)]))))
             ''physical'' = Some d'
        \<and> badges d' = [''Physical Champion'']"
proof -
  let ?d = "\<lparr>level = 2, responses = [], badges = []\<rparr>"
  let ?s = "Some [(''physical'', ?d)]"
  have 1: "map_of SURVEY_QUESTIONS (lower ''physical'') = Some (snd (SURVEY_QUESTIONS ! 1))"
    by (simp add: lower_physical lookup_physical)
  have 2: "map_of (fst (get_user_progress ?s)) (lower ''physical'') = Some ?d"
    by (simp add: lower_physical view_Some)
  have 3: "int (length (snd (SURVEY_QUESTIONS ! 1))) = 3"
    by (simp add: SURVEY_QUESTIONS_def)
  have 4: "capitalize ''physical'' = ''Physical''"
    by (simp add: capitalize_def upper_char_def lower_char_def ascii_uppercase_def
          ascii_lowercase_def)
  obtain d' where "map_of (fst (get_user_progress (apply_op (SubmitSurvey ''physical'' []) ?s)))
                     (lower ''physical'') = Some d'"
    and "badges d' = (if level ?d + 1 = int (length (snd (SURVEY_QUESTIONS ! 1)))
                      then badges ?d @ [capitalize (lower ''physical'') @ '' Champion'']
                      else badges ?d)"
    using survey_post_badges [OF 1 2, of "[]"] by blast
  then have "map_of (fst (get_user_progress (apply_op (SubmitSurvey ''physical'' []) ?s)))
               ''physical'' = Some d' \<and> badges d' = [''Physical Champion'']"
    unfolding 3 lower_physical 4 by simp
  then show ?thesis by blast
qed

text \<open>
  Claim C8. When a POST stores a level, the answers of the new response are, for each
  index \<open>i\<close> of the level's questions in order, the question at \<open>i\<close> with the first
  value of the form field \<^verbatim>\<open>q\<close>\<open>i\<close>, or with the empty string when the form has no such
  field. This holds for every form: the handler raises nothing on account of it.
\<close>

theorem survey_post_answers:
  assumes "map_of SURVEY_QUESTIONS (lower c) = Some lvls"
      and "map_of (fst (get_user_progress s)) (lower c) = Some d"
      and "find (\<lambda>lvl. ld_level lvl = level d + 1) lvls = Some ld"
      and "level d + 1 \<le> int (length lvls)"
  shows "\<exists>p' d'. survey POST c form s = Inr (Redirect_index, Some p')
           \<and> map_of p' (lower c) = Some d'
           \<and> responses d' = responses d @
                [\<lparr>r_level = level d + 1,
                  answers = map (\<lambda>i. \<lparr>question = ld_questions ld ! i,
                                       answer = (case map_of form (''q'' @ decimal i) of
                                                   None \<Rightarrow> '''' | Some v \<Rightarrow> v)\<rparr>)
                              [0..<length (ld_questions ld)]\<rparr>]"
proof -
  let ?d' = "submitted (lower c) lvls ld form d"
  let ?p' = "AList.update (lower c) ?d' (fst (get_user_progress s))"
  have "survey POST c form s = Inr (Redirect_index, Some ?p')"
    using assms(3,4) by (simp add: survey_known [OF assms(1,2)])
  moreover have "map_of ?p' (lower c) = Some ?d'"
    by (simp add: update_conv')
  moreover have "responses ?d' = responses d @
                [\<lparr>r_level = level d + 1,
                  answers = map (\<lambda>i. \<lparr>question = ld_questions ld ! i,
                                       answer = (case map_of form (''q'' @ decimal i) of
                                                   None \<Rightarrow> '''' | Some v \<Rightarrow> v)\<rparr>)
                              [0..<length (ld_questions ld)]\<rparr>]"
    by (simp add: submitted_def collect_answers_nth)
  ultimately show ?thesis by blast
qed

theorem survey_post_answers_witness:
  "\<exists>p' d'. survey POST ''physical'' [(''q1'', ''no''), (''q1'', ''yes''), (''q2'', ''x'')] None
               = Inr (Redirect_index, Some p')
       \<and> map_of p' ''physical'' = Some d'
       \<and> responses d' =
           [\<lparr>r_level = 1,
             answers =
               [\<lparr>question = ''Did you complete at least 30 minutes of physical activity today?'',
                 answer = ''''\<rparr>,
                \<lparr>question = ''Did you drink at least 8 cups of water today?'',
                 answer = ''no''\<rparr>]\<rparr>]"
proof -
  let ?d = "\<lparr>level = 0, responses = [], badges = []\<rparr>"
  let ?lvls = "snd (SURVEY_QUESTIONS ! 1)"
  let ?form = "[(''q1'', ''no''), (''q1'', ''yes''), (''q2'', ''x'')]"
  have 1: "map_of SURVEY_QUESTIONS (lower ''physical'') = Some ?lvls"
    by (simp add: lower_physical lookup_physical)
  have 2: "map_of (fst (get_user_progress None)) (lower ''physical'') = Some ?d"
    by (simp add: lower_physical view_fresh SURVEY_QUESTIONS_keys)
  have 3: "find (\<lambda>lvl. ld_level lvl = level ?d + 1) ?lvls = Some (hd ?lvls)"
    by (simp add: SURVEY_QUESTIONS_def)
  have 4: "level ?d + 1 \<le> int (length ?lvls)"
    by (simp add: SURVEY_QUESTIONS_def)
  have qs: "ld_questions (hd ?lvls) =
              [''Did you complete at least 30 minutes of physical activity today?'',
               ''Did you drink at least 8 cups of water today?'']"
    by (simp add: SURVEY_QUESTIONS_def)
  have upt2: "[0..<length (ld_questions (hd ?lvls))] = [0, Suc 0]"
    unfolding qs by (simp add: upt_rec)
  obtain p' d' where r: "survey POST ''physical'' ?form None = Inr (Redirect_index, Some p')"
    and e: "map_of p' (lower ''physical'') = Some d'"
    and a: "responses d' = responses ?d @
              [\<lparr>r_level = level ?d + 1,
                answers = map (\<lambda>i. \<lparr>question = ld_questions (hd ?lvls) ! i,
                                     answer = (case map_of ?form (''q'' @ decimal i) of
                                                 None \<Rightarrow> '''' | Some v \<Rightarrow> v)\<rparr>)
                            [0..<length (ld_questions (hd ?lvls))]\<rparr>]"
    using survey_post_answers [OF 1 2 3 4, of ?form] by blast
  have "responses d' =
           [\<lparr>r_level = 1,
             answers =
               [\<lparr>question = ''Did you complete at least 30 minutes of physical activity today?'',
                 answer = ''''\<rparr>,
                \<lparr>question = ''Did you drink at least 8 cups of water today?'',
                 answer = ''no''\<rparr>]\<rparr>]"
    unfolding a upt2 qs by (simp add: decimal_0 decimal_1)
  with r e show ?thesis by (auto simp: lower_physical)
qed

subsection \<open>Requests that store nothing\<close>

text \<open>
  Claim C7. If the lower-cased category is not configured, or its record already
  holds the full number of levels, or the configuration has no entry for the level
  after the recorded one, then the handler answers GET and POST alike with the
  redirect to the summary page and returns the session exactly as it received it.
\<close>

theorem survey_lookup_failure_redirects:
  assumes "map_of SURVEY_QUESTIONS (lower c) = None
           \<or> (\<exists>d. map_of (fst (get_user_progress s)) (lower c) = Some d
                   \<and> level d = total_levels (lower c))
           \<or> (\<exists>lvls d. map_of SURVEY_QUESTIONS (lower c) = Some lvls
                   \<and> map_of (fst (get_user_progress s)) (lower c) = Some d
                   \<and> find (\<lambda>lvl. ld_level lvl = level d + 1) lvls = None)"
  shows "survey m c form s = Inr (Redirect_index, s)"
  using assms by (rule survey_redirect_unchanged)

theorem survey_lookup_failure_redirects_witness:
  "map_of SURVEY_QUESTIONS (lower ''unknown-category'') = None
   \<and> survey GET ''unknown-category'' [] None = Inr (Redirect_index, None)
   \<and> survey POST ''unknown-category'' [(''q0'', ''yes'')] None = Inr (Redirect_index, None)"
proof -
  have 1: "map_of SURVEY_QUESTIONS (lower ''unknown-category'') = None"
    by (simp add: SURVEY_QUESTIONS_def lower_def lower_char_def ascii_uppercase_def
          ascii_lowercase_def)
  have 2: "survey GET ''unknown-category'' [] None = Inr (Redirect_index, None)"
    by (rule survey_lookup_failure_redirects) (rule disjI1, rule 1)
  have 3: "survey POST ''unknown-category'' [(''q0'', ''yes'')] None = Inr (Redirect_index, None)"
    by (rule survey_lookup_failure_redirects) (rule disjI1, rule 1)
  from 1 2 3 show ?thesis by blast
qed










text \<open>
  Claim C10. When a GET renders a survey page, the session it leaves is the one
  \<^verbatim>\<open>get_user_progress\<close> leaves: the same session if it had a progress record, and
  the freshly initialised one otherwise. Read through \<^verbatim>\<open>get_user_progress\<close>, every
  category has the level, responses and badges it had before.
\<close>

theorem survey_get_frame:
  assumes "survey GET c form s = Inr (Render_survey cat lv qs, s')"
  shows "s' = snd (get_user_progress s)
         \<and> fst (get_user_progress s') = fst (get_user_progress s)
         \<and> (s \<noteq> None \<longrightarrow> s' = s)"
proof -
  have "s' = snd (get_user_progress s)"
    using assms
    by (auto simp: survey_def Let_def split_beta split: option.splits if_splits)
  then show ?thesis
    by (simp add: view_idem snd_view_Some)
qed

theorem survey_get_frame_witness:
  "survey GET ''Mental'' [] None
     = Inr (Render_survey ''mental'' 1 (ld_questions (hd (snd (SURVEY_QUESTIONS ! 2)))),
            snd (get_user_progress None))
   \<and> fst (get_user_progress (snd (get_user_progress None))) = fst (get_user_progress None)"
proof -
  have 1: "survey GET ''Mental'' [] None
     = Inr (Render_survey ''mental'' 1 (ld_questions (hd (snd (SURVEY_QUESTIONS ! 2)))),
            snd (get_user_progress None))"
    by (simp add: survey_def SURVEY_QUESTIONS_def get_user_progress_def Let_def
          lower_def lower_char_def ascii_uppercase_def ascii_lowercase_def)
  show ?thesis
    using 1 survey_get_frame [OF 1] by simp
qed

subsection \<open>The invariant of the session\<close>

lemma session_ok_None: "session_ok None"
  by (simp add: session_ok_def)

lemma cat_ok_fresh:
  assumes "c \<in> set (map fst SURVEY_QUESTIONS)"
  shows "cat_ok c \<lparr>level = 0, responses = [], badges = []\<rparr>"
proof -
  obtain lvls where "map_of SURVEY_QUESTIONS c = Some lvls"
    using SURVEY_QUESTIONS_known [OF assms] by blast
  then have "total_levels c = 3" by (rule total_levels_known)
  then show ?thesis by (simp add: cat_ok_def)
qed

lemma progress_ok_fresh: "progress_ok (fst (get_user_progress None))"
proof -
  have "\<forall>c \<in> set (map fst SURVEY_QUESTIONS). cat_ok c \<lparr>level = 0, responses = [], badges = []\<rparr>"
    using cat_ok_fresh by blast
  then show ?thesis
    by (simp add: progress_ok_def get_user_progress_def Let_def o_def)
qed

lemma session_ok_view:
  assumes "session_ok s"
  shows "progress_ok (fst (get_user_progress s))"
proof (cases s)
  case None
  then show ?thesis by (simp add: progress_ok_fresh)
next
  case (Some p)
  then show ?thesis using assms by (simp add: session_ok_def view_Some)
qed

lemma session_ok_init:
  assumes "session_ok s"
  shows "session_ok (snd (get_user_progress s))"
proof (cases s)
  case None
  have "snd (get_user_progress None) = Some (fst (get_user_progress None))"
    by (simp add: get_user_progress_def Let_def)
  then show ?thesis using None progress_ok_fresh by (simp add: session_ok_def)
next
  case (Some p)
  then show ?thesis using assms by (simp add: view_Some)
qed

lemma progress_ok_entry:
  assumes "progress_ok p" and "c \<in> set (map fst SURVEY_QUESTIONS)"
  shows "\<exists>d. map_of p c = Some d \<and> cat_ok c d"
proof -
  have "c \<in> fst ` set p"
    using assms by (simp add: progress_ok_def flip: set_map)
  then obtain d where d: "map_of p c = Some d"
    by (metis map_of_eq_None_iff not_Some_eq)
  then have "(c, d) \<in> set p" by (rule map_of_SomeD)
  then have "cat_ok c d" using assms(1) by (auto simp: progress_ok_def)
  with d show ?thesis by blast
qed

lemma progress_ok_all:
  assumes "progress_ok p"
  shows "\<forall>(c, d) \<in> set p. c \<in> set (map fst SURVEY_QUESTIONS) \<and> cat_ok c d"
proof -
  have "c \<in> set (map fst SURVEY_QUESTIONS)" if "(c, d) \<in> set p" for c d
  proof -
    have eq: "map fst p = map fst SURVEY_QUESTIONS"
      using assms by (simp add: progress_ok_def)
    have "c \<in> set (map fst p)" using that by force
    then show ?thesis unfolding eq .
  qed
  then show ?thesis using assms by (auto simp: progress_ok_def)
qed

lemma set_update_subset: "set (AList.update k v al) \<subseteq> insert (k, v) (set al)"
  by (induction al) auto

lemma progress_ok_update:
  assumes "progress_ok p" and "map_of p c = Some d" and "cat_ok c d'"
  shows "progress_ok (AList.update c d' p)"
proof -
  have "c \<in> set (map fst p)"
    using assms(2) by (metis map_of_eq_None_iff option.distinct(1) set_map)
  then have "map fst (AList.update c d' p) = map fst p"
    by (simp add: update_keys)
  moreover have "\<forall>(k, v) \<in> set (AList.update c d' p). cat_ok k v"
    using assms(1,3) set_update_subset [of c d' p] by (auto simp: progress_ok_def)
  ultimately show ?thesis using assms(1) by (simp add: progress_ok_def)
qed

lemma submitted_ok:
  assumes "map_of SURVEY_QUESTIONS c = Some lvls" and "cat_ok c d"
      and "level d < int (length lvls)"
  shows "cat_ok c (submitted c lvls ld form d)"
  using assms total_levels_known [OF assms(1)] length_levels [OF assms(1)]
  by (auto simp: cat_ok_def submitted_def)

lemma survey_session_ok:
  assumes "session_ok s"
  shows "session_ok (session_after (survey m c form s) s)"
proof (cases "map_of SURVEY_QUESTIONS (lower c)")
  case None
  then show ?thesis using assms by (simp add: survey_unknown session_after_def)
next
  case (Some lvls)
  have pok: "progress_ok (fst (get_user_progress s))"
    using assms by (rule session_ok_view)
  have "lower c \<in> set (map fst SURVEY_QUESTIONS)"
    using Some by (metis map_of_eq_None_iff option.distinct(1) set_map)
  then obtain d where d: "map_of (fst (get_user_progress s)) (lower c) = Some d"
    and dok: "cat_ok (lower c) d"
    using progress_ok_entry [OF pok] by blast
  have upd: "progress_ok (AList.update (lower c) (submitted (lower c) lvls ld form d)
                           (fst (get_user_progress s)))"
    if "\<not> int (length lvls) < level d + 1" for ld
    using that by (intro progress_ok_update [OF pok d] submitted_ok [OF Some dok]) simp
  show ?thesis
    using session_ok_init [OF assms] upd
    by (simp add: survey_known [OF Some d] session_after_def session_ok_def
             split: option.splits)
qed

lemma apply_op_ok:
  assumes "session_ok s"
  shows "session_ok (apply_op op s)"
  using assms by (cases op) (simp_all add: session_ok_init survey_session_ok)

lemma run_Nil: "run [] s = s"
  by (simp add: run_def)

lemma run_Cons: "run (op # ops) s = run ops (apply_op op s)"
  by (simp add: run_def)

lemma run_ok:
  assumes "session_ok s"
  shows "session_ok (run ops s)"
  using assms by (induction ops arbitrary: s) (simp_all add: run_Nil run_Cons apply_op_ok)

lemma run_entry:
  assumes "c \<in> set (map fst SURVEY_QUESTIONS)"
  shows "\<exists>d. map_of (fst (get_user_progress (run ops None))) c = Some d \<and> cat_ok c d"
  using progress_ok_entry [OF session_ok_view [OF run_ok [OF session_ok_None]] assms] .

text \<open>
  Claim C3. After any sequence of the three operations on a session that started
  empty, every configured category has a record whose level lies between 0 and the
  number of its levels, whose responses are as many as its level, and whose badges
  are none or one.
\<close>

theorem reachable_progress_invariant:
  assumes "c \<in> set (map fst SURVEY_QUESTIONS)"
  shows "\<exists>d. map_of (fst (get_user_progress (run ops None))) c = Some d
           \<and> 0 \<le> level d \<and> level d \<le> total_levels c
           \<and> int (length (responses d)) = level d
           \<and> (length (badges d) = 0 \<or> length (badges d) = 1)"
proof -
  obtain d where "map_of (fst (get_user_progress (run ops None))) c = Some d" and "cat_ok c d"
    using run_entry [OF assms] by blast
  then show ?thesis by (auto simp: cat_ok_def split: if_splits)
qed

theorem reachable_progress_invariant_witness:
  "''mental'' \<in> set (map fst SURVEY_QUESTIONS)
   \<and> (\<exists>d. map_of (fst (get_user_progress
              (run [GetSurveyPage ''mental'', SubmitSurvey ''Mental'' [(''q0'', ''yes'')]] None)))
             ''mental'' = Some d
         \<and> 0 \<le> level d \<and> level d \<le> total_levels ''mental''
         \<and> int (length (responses d)) = level d
         \<and> (length (badges d) = 0 \<or> length (badges d) = 1))"
proof -
  have 1: "''mental'' \<in> set (map fst SURVEY_QUESTIONS)"
    by (simp add: SURVEY_QUESTIONS_keys)
  show ?thesis
    using 1 reachable_progress_invariant [OF 1,
        of "[GetSurveyPage ''mental'', SubmitSurvey ''Mental'' [(''q0'', ''yes'')]]"]
    by blast
qed

subsection \<open>Levels only grow\<close>

lemma apply_op_get_view:
  "fst (get_user_progress (apply_op (GetSurveyPage k) s)) = fst (get_user_progress s)"
proof (cases "map_of SURVEY_QUESTIONS (lower k)")
  case None
  then show ?thesis by (simp add: survey_unknown session_after_def)
next
  case (Some lvls)
  show ?thesis
  proof (cases "map_of (fst (get_user_progress s)) (lower k)")
    case None
    then show ?thesis by (simp add: survey_missing_entry [OF Some] session_after_def)
  next
    case (Some d)
    show ?thesis
      by (simp add: survey_known [OF \<open>map_of SURVEY_QUESTIONS (lower k) = Some lvls\<close> Some]
            session_after_def view_idem split: option.splits)
  qed
qed

lemma apply_op_submit_other:
  assumes "lower k \<noteq> c"
  shows "map_of (fst (get_user_progress (apply_op (SubmitSurvey k form) s))) c =
         map_of (fst (get_user_progress s)) c"
proof (cases "map_of SURVEY_QUESTIONS (lower k)")
  case None
  then show ?thesis by (simp add: survey_unknown session_after_def)
next
  case (Some lvls)
  show ?thesis
  proof (cases "map_of (fst (get_user_progress s)) (lower k)")
    case None
    then show ?thesis by (simp add: survey_missing_entry [OF Some] session_after_def)
  next
    case (Some d)
    show ?thesis
      using assms
      by (simp add: survey_known [OF \<open>map_of SURVEY_QUESTIONS (lower k) = Some lvls\<close> Some]
            session_after_def view_idem view_Some update_conv' split: option.splits)
  qed
qed

lemma apply_op_level_mono:
  assumes "map_of (fst (get_user_progress s)) c = Some d"
  shows "\<exists>d'. map_of (fst (get_user_progress (apply_op op s))) c = Some d' \<and> level d \<le> level d'"
proof (cases op)
  case GetOrInitProgress
  then show ?thesis using assms by (simp add: view_idem)
next
  case (GetSurveyPage k)
  then show ?thesis using assms by (simp add: apply_op_get_view del: apply_op.simps)
next
  case (SubmitSurvey k form)
  show ?thesis
  proof (cases "lower k = c")
    case False
    then show ?thesis
      using assms SubmitSurvey by (simp add: apply_op_submit_other del: apply_op.simps)
  next
    case True
    show ?thesis
    proof (cases "map_of SURVEY_QUESTIONS (lower k)")
      case None
      then show ?thesis
        using assms SubmitSurvey by (simp add: survey_unknown session_after_def)
    next
      case (Some lvls)
      have d: "map_of (fst (get_user_progress s)) (lower k) = Some d"
        using assms True by simp
      show ?thesis
        unfolding SubmitSurvey True [symmetric] apply_op_submit_entry [OF Some d]
        by (simp add: submitted_def split: option.splits)
    qed
  qed
qed

lemma run_level_mono:
  assumes "map_of (fst (get_user_progress s)) c = Some d"
  shows "\<exists>d'. map_of (fst (get_user_progress (run ops s))) c = Some d' \<and> level d \<le> level d'"
  using assms
proof (induction ops arbitrary: s d)
  case Nil
  then show ?case by (simp add: run_Nil)
next
  case (Cons op ops)
  obtain d1 where d1: "map_of (fst (get_user_progress (apply_op op s))) c = Some d1"
    and le1: "level d \<le> level d1"
    using apply_op_level_mono [OF Cons.prems] by blast
  obtain d2 where "map_of (fst (get_user_progress (run ops (apply_op op s)))) c = Some d2"
    and "level d1 \<le> level d2"
    using Cons.IH [OF d1] by blast
  with le1 show ?case by (auto simp: run_Cons)
qed

lemma three_submissions:
  "\<exists>d. map_of (fst (get_user_progress
           (run [SubmitSurvey ''physical'' [], SubmitSurvey ''physical'' [],
                 SubmitSurvey ''physical'' []] None))) ''physical'' = Some d
       \<and> level d = 3"
proof -
  let ?sub = "SubmitSurvey ''physical'' []"
  let ?lvls = "snd (SURVEY_QUESTIONS ! 1)"
  let ?view = "\<lambda>s. map_of (fst (get_user_progress s)) ''physical''"
  have lk: "map_of SURVEY_QUESTIONS (lower ''physical'') = Some ?lvls"
    by (simp add: lower_physical lookup_physical)
  have len: "int (length ?lvls) = 3"
    using length_levels [OF lookup_physical] by simp
  have step: "\<exists>d'. ?view (apply_op ?sub s) = Some d' \<and> level d' = level d + 1"
    if v: "?view s = Some d" and n: "0 \<le> level d" "level d < 3" for s d
  proof -
    have e: "map_of (fst (get_user_progress s)) (lower ''physical'') = Some d"
      using v by (simp add: lower_physical)
    obtain ld where ld: "find (\<lambda>lvl. ld_level lvl = level d + 1) ?lvls = Some ld"
      using find_next_level [OF lookup_physical n(1)] n(2) len by auto
    have "?view (apply_op ?sub s) = Some (submitted ''physical'' ?lvls ld [] d)"
      using n(2) unfolding apply_op_submit_entry [OF lk e, unfolded lower_physical] ld len
      by simp
    moreover have "level (submitted ''physical'' ?lvls ld [] d) = level d + 1"
      by (simp add: submitted_def)
    ultimately show ?thesis by blast
  qed
  have v0: "?view None = Some \<lparr>level = 0, responses = [], badges = []\<rparr>"
    by (simp add: view_fresh SURVEY_QUESTIONS_keys)
  obtain d1 where v1: "?view (apply_op ?sub None) = Some d1" and l1: "level d1 = 1"
    using step [OF v0] by auto
  obtain d2 where v2: "?view (apply_op ?sub (apply_op ?sub None)) = Some d2"
    and l2: "level d2 = 2"
    using step [OF v1] l1 by auto
  obtain d3 where v3: "?view (apply_op ?sub (apply_op ?sub (apply_op ?sub None))) = Some d3"
    and l3: "level d3 = 3"
    using step [OF v2] l2 by auto
  have "run [?sub, ?sub, ?sub] None = apply_op ?sub (apply_op ?sub (apply_op ?sub None))"
    unfolding run_Cons run_Nil ..
  with v3 l3 show ?thesis by metis
qed

text \<open>
  Claim C4. Take any session reached from the empty one and run any further sequence
  of operations on it. The level of a configured category is then at least what it
  was and at most the number of its levels; and if it had already been the number of
  levels, every GET and POST for that category, in any spelling of its name, is
  answered with the redirect and leaves the session unchanged.
\<close>

theorem level_monotone_terminal:
  assumes "c \<in> set (map fst SURVEY_QUESTIONS)"
  shows "\<exists>d1 d2. map_of (fst (get_user_progress (run ops1 None))) c = Some d1
           \<and> map_of (fst (get_user_progress (run ops2 (run ops1 None)))) c = Some d2
           \<and> level d1 \<le> level d2 \<and> level d2 \<le> total_levels c
           \<and> (level d1 = total_levels c \<longrightarrow>
                (\<forall>m k form. lower k = c \<longrightarrow>
                   survey m k form (run ops2 (run ops1 None))
                     = Inr (Redirect_index, run ops2 (run ops1 None))))"
proof -
  let ?s2 = "run ops2 (run ops1 None)"
  obtain d1 where d1: "map_of (fst (get_user_progress (run ops1 None))) c = Some d1"
    using run_entry [OF assms] by blast
  obtain d2 where d2: "map_of (fst (get_user_progress ?s2)) c = Some d2"
    and le: "level d1 \<le> level d2"
    using run_level_mono [OF d1] by blast
  have "session_ok ?s2"
    by (intro run_ok session_ok_None)
  then have "cat_ok c d2"
    using progress_ok_entry [OF session_ok_view assms] d2 by fastforce
  then have top: "level d2 \<le> total_levels c"
    by (simp add: cat_ok_def)
  have "survey m k form ?s2 = Inr (Redirect_index, ?s2)"
    if "level d1 = total_levels c" and "lower k = c" for m k form
  proof -
    have "level d2 = total_levels (lower k)"
      using that le top by simp
    then show ?thesis
      using d2 that(2) by (intro survey_redirect_unchanged) auto
  qed
  with d1 d2 le top show ?thesis by blast
qed

theorem level_monotone_terminal_witness:
  "''physical'' \<in> set (map fst SURVEY_QUESTIONS)
   \<and> survey POST ''Physical'' [(''q0'', ''again'')]
        (run [GetSurveyPage ''physical'']
          (run [SubmitSurvey ''physical'' [], SubmitSurvey ''physical'' [],
                SubmitSurvey ''physical'' []] None))
      = Inr (Redirect_index,
          run [GetSurveyPage ''physical'']
            (run [SubmitSurvey ''physical'' [], SubmitSurvey ''physical'' [],
                  SubmitSurvey ''physical'' []] None))"
proof -
  let ?ops1 = "[SubmitSurvey ''physical'' [], SubmitSurvey ''physical'' [],
                SubmitSurvey ''physical'' []]"
  let ?ops2 = "[GetSurveyPage ''physical'']"
  have 1: "''physical'' \<in> set (map fst SURVEY_QUESTIONS)"
    by (simp add: SURVEY_QUESTIONS_keys)
  have tot: "total_levels ''physical'' = 3"
    using lookup_physical by (rule total_levels_known)
  obtain d1 where "map_of (fst (get_user_progress (run ?ops1 None))) ''physical'' = Some d1"
    and "level d1 = 3"
    using three_submissions by blast
  then have "survey POST ''Physical'' [(''q0'', ''again'')] (run ?ops2 (run ?ops1 None))
               = Inr (Redirect_index, run ?ops2 (run ?ops1 None))"
    using level_monotone_terminal [OF 1, of ?ops1 ?ops2] tot lower_Physical by auto
  with 1 show ?thesis by blast
qed

subsection \<open>Rounding to binary64\<close>

text \<open>
  The rounding of the model returns a multiple of the unit in the last place with a
  significand of at most 53 bits, at most half a unit away from the exact value.
\<close>

lemma pow2_power_int: "pow2 e = power_int 2 e"
  by (simp add: pow2_def power_int_def field_simps)

lemma pow2_pos: "0 < pow2 e"
  by (simp add: pow2_power_int)

lemma pow2_add: "pow2 (a + b) = pow2 a * pow2 b"
  by (simp add: pow2_power_int power_int_add)

lemma round_half_even_nearest: "\<bar>of_int (round_half_even y) - y\<bar> \<le> 1 / 2"
proof -
  have "of_int \<lfloor>y\<rfloor> \<le> y" "y < of_int \<lfloor>y\<rfloor> + 1"
    by linarith+
  then show ?thesis
    by (auto simp: round_half_even_def Let_def abs_le_iff)
qed

lemma bitlen_pos_bounds:
  assumes "0 < a"
  shows "pow2 (bitlen a - 1) \<le> of_int a" and "of_int a < pow2 (bitlen a)"
proof -
  have b: "2 ^ nat (bitlen a - 1) \<le> a" "a < 2 ^ nat (bitlen a)"
    using bitlen_bounds [OF assms] by simp_all
  have "0 < bitlen a" using assms bitlen_nonneg [of a] bitlen_eq_zero_iff [of a] by force
  then have p: "0 \<le> bitlen a - 1" "0 \<le> bitlen a" by simp_all
  have "(of_int (2 ^ nat (bitlen a - 1)) :: rat) \<le> of_int a"
    using b(1) by (simp only: of_int_le_iff)
  then show "pow2 (bitlen a - 1) \<le> of_int a"
    using p by (simp add: pow2_def)
  have "(of_int a :: rat) < of_int (2 ^ nat (bitlen a))"
    using b(2) by (simp only: of_int_less_iff)
  then show "of_int a < pow2 (bitlen a)"
    using p by (simp add: pow2_def)
qed

lemma ilog2_bounds:
  assumes "0 < x"
  shows "pow2 (ilog2 x) \<le> x \<and> x < pow2 (ilog2 x + 1)"
proof -
  obtain a b where q: "quotient_of x = (a, b)" by (cases "quotient_of x")
  then have b: "0 < b" and x: "x = of_int a / of_int b"
    using quotient_of_denom_pos quotient_of_div by blast+
  have a: "0 < a" using assms b x by (simp add: zero_less_divide_iff)
  let ?t = "bitlen a - bitlen b"
  have lo: "pow2 (?t - 1) < x"
  proof -
    have "pow2 (?t - 1) * of_int b < pow2 (?t - 1) * pow2 (bitlen b)"
      using bitlen_pos_bounds(2) [OF b] pow2_pos by simp
    also have "\<dots> = pow2 (bitlen a - 1)"
      by (simp flip: pow2_add)
    also have "\<dots> \<le> of_int a"
      using bitlen_pos_bounds(1) [OF a] .
    finally show ?thesis using b by (simp add: x pos_less_divide_eq)
  qed
  have hi: "x < pow2 (?t + 1)"
  proof -
    have "of_int a < pow2 (bitlen a)"
      using bitlen_pos_bounds(2) [OF a] .
    also have "\<dots> = pow2 (?t + 1) * pow2 (bitlen b - 1)"
      by (simp flip: pow2_add)
    also have "\<dots> \<le> pow2 (?t + 1) * of_int b"
      using bitlen_pos_bounds(1) [OF b] pow2_pos by simp
    finally show ?thesis using b by (simp add: x pos_divide_less_eq)
  qed
  show ?thesis
    using lo hi by (auto simp: ilog2_def q Let_def)
qed

lemma abs_scale:
  fixes u m x :: rat
  assumes "0 < u"
  shows "\<bar>m * u - x\<bar> = \<bar>m - x / u\<bar> * u"
proof -
  have "\<bar>m - x / u\<bar> * u = \<bar>(m - x / u) * u\<bar>"
    using assms by (simp add: abs_mult)
  also have "(m - x / u) * u = m * u - x"
    using assms by (simp add: field_simps)
  finally show ?thesis by simp
qed

lemma fl_nearest:
  assumes "fl x = Some y" and "x \<noteq> 0"
  shows "\<exists>m. y = of_int m * pow2 (max (ilog2 \<bar>x\<bar>) (- 1022) - 52)
           \<and> \<bar>m\<bar> \<le> 2 ^ 53
           \<and> \<bar>y - x\<bar> \<le> pow2 (max (ilog2 \<bar>x\<bar>) (- 1022) - 53)"
proof -
  let ?e = "max (ilog2 \<bar>x\<bar>) (- 1022)"
  let ?ulp = "pow2 (?e - 52)"
  let ?m = "round_half_even (x / ?ulp)"
  have ulp: "0 < ?ulp" by (rule pow2_pos)
  have half: "pow2 (?e - 53) = ?ulp / 2"
    using pow2_add [of "?e - 53" 1] by (simp add: pow2_def)
  have y: "y = of_int ?m * ?ulp"
    using assms by (simp add: fl_def Let_def split: if_splits)
  have near: "\<bar>of_int ?m - x / ?ulp\<bar> \<le> 1 / 2"
    by (rule round_half_even_nearest)
  have "\<bar>y - x\<bar> = \<bar>of_int ?m - x / ?ulp\<bar> * ?ulp"
    unfolding y using ulp by (rule abs_scale)
  also have "\<dots> \<le> 1 / 2 * ?ulp"
    using near ulp by (intro mult_right_mono) simp_all
  finally have err: "\<bar>y - x\<bar> \<le> pow2 (?e - 53)"
    by (simp add: half)
  have "\<bar>x\<bar> < pow2 (ilog2 \<bar>x\<bar> + 1)"
    using ilog2_bounds [of "\<bar>x\<bar>"] assms(2) by simp
  also have "\<dots> \<le> pow2 (?e + 1)"
    by (simp add: pow2_power_int power_int_increasing)
  also have "\<dots> = pow2 (53 + (?e - 52))"
    by (rule arg_cong [where f = pow2]) simp
  also have "\<dots> = pow2 53 * ?ulp"
    by (rule pow2_add)
  also have "pow2 53 = 2 ^ 53"
    by (simp add: pow2_def)
  finally have "\<bar>x / ?ulp\<bar> < 2 ^ 53"
    using ulp by (simp add: pos_divide_less_eq)
  then have "\<bar>(of_int ?m :: rat)\<bar> < 2 ^ 53 + 1"
    using near by linarith
  then have "\<bar>?m\<bar> < 2 ^ 53 + 1"
    by (metis (mono_tags) of_int_abs of_int_less_iff of_int_numeral of_int_power of_int_add of_int_1)
  then have "\<bar>?m\<bar> \<le> 2 ^ 53" by simp
  with y err show ?thesis by blast
qed

subsection \<open>The percentage of the summary page\<close>

text \<open>
  The floating-point expression evaluated at the four levels a category of three
  levels can have, and, for contrast, at 29 levels of 100, where it is one less than
  the integer quotient.
\<close>

lemma compute_percent_complete_0_3: "compute_percent_complete 0 3 = Inr 0"
  by code_simp

lemma compute_percent_complete_1_3: "compute_percent_complete 1 3 = Inr 33"
  by code_simp

lemma compute_percent_complete_2_3: "compute_percent_complete 2 3 = Inr 66"
  by code_simp

lemma compute_percent_complete_3_3: "compute_percent_complete 3 3 = Inr 100"
  by code_simp

lemma compute_percent_complete_29_100: "compute_percent_complete 29 100 = Inr 28"
  by code_simp

lemma compute_percent_complete_floor:
  assumes "0 \<le> n" and "n \<le> 3"
  shows "compute_percent_complete n 3 = Inr (100 * n div 3)"
proof -
  have "n = 0 \<or> n = 1 \<or> n = 2 \<or> n = 3"
    using assms by auto
  then show ?thesis
    using compute_percent_complete_0_3 compute_percent_complete_1_3
      compute_percent_complete_2_3 compute_percent_complete_3_3
    by auto
qed

lemma categories_info_percent:
  assumes "\<forall>(c, d) \<in> set p. c \<in> set (map fst SURVEY_QUESTIONS) \<and> cat_ok c d"
  shows "\<exists>infos. categories_info p = Inr infos
           \<and> map (\<lambda>i. (key i, percent_complete i)) infos
               = map (\<lambda>(c, d). (c, 100 * level d div total_levels c)) p"
  using assms
proof (induction p)
  case Nil
  then show ?case by simp
next
  case (Cons cd p)
  obtain c d where cd: "cd = (c, d)" by (cases cd)
  have c: "c \<in> set (map fst SURVEY_QUESTIONS)" and ok: "cat_ok c d"
    using Cons.prems cd by auto
  obtain lvls where lvls: "map_of SURVEY_QUESTIONS c = Some lvls"
    using SURVEY_QUESTIONS_known [OF c] by blast
  have len: "int (length lvls) = 3" and tot: "total_levels c = 3"
    using length_levels [OF lvls] total_levels_known [OF lvls] by simp_all
  have pc: "compute_percent_complete (level d) 3 = Inr (100 * level d div 3)"
    using ok tot by (intro compute_percent_complete_floor) (simp_all add: cat_ok_def)
  obtain infos where "categories_info p = Inr infos"
    and "map (\<lambda>i. (key i, percent_complete i)) infos
           = map (\<lambda>(c, d). (c, 100 * level d div total_levels c)) p"
    using Cons.IH Cons.prems by auto
  then show ?case
    by (simp add: cd lvls len tot pc Let_def)
qed

text \<open>
  Claim C6. On every session reached from the empty one the summary page is rendered,
  and the percentage it shows for each category, computed in floating point as
  \<^verbatim>\<open>int((completed_levels / total_levels) * 100)\<close>, is the integer quotient of
  \<open>100 * level\<close> by the number of levels. For level 1 of 3 that is 33.
\<close>

theorem index_percent_complete_floor:
  "\<exists>infos. index (run ops None)
              = (Inr (Render_index infos), snd (get_user_progress (run ops None)))
         \<and> map (\<lambda>i. (key i, percent_complete i)) infos
             = map (\<lambda>(c, d). (c, 100 * level d div total_levels c))
                 (fst (get_user_progress (run ops None)))
         \<and> compute_percent_complete 1 3 = Inr 33"
proof -
  let ?p = "fst (get_user_progress (run ops None))"
  have "progress_ok ?p"
    by (intro session_ok_view run_ok session_ok_None)
  then have "\<forall>(c, d) \<in> set ?p. c \<in> set (map fst SURVEY_QUESTIONS) \<and> cat_ok c d"
    by (rule progress_ok_all)
  then obtain infos where "categories_info ?p = Inr infos"
    and "map (\<lambda>i. (key i, percent_complete i)) infos
           = map (\<lambda>(c, d). (c, 100 * level d div total_levels c)) ?p"
    using categories_info_percent by blast
  then show ?thesis
    using compute_percent_complete_1_3 by (simp add: index_def split_beta)
qed

end
